theory Spec2Isabelle
  imports Main
begin

section \<open>The select prompt of \<open>packages/cli/src/util/custom-input/select.ts\<close>\<close>

text \<open>
  The view function of the prompt is embedded as functions on an explicit session state.
  Numbers that index the item list are integers (\<open>-1\<close> is \<^verbatim>\<open>findIndex\<close>'s "not
  found"); a read outside the array is \<^verbatim>\<open>undefined\<close>, modelled by \<open>None\<close>; a
  thrown exception is the \<open>Inl\<close> of a result. The type \<open>'v\<close> stands for
  \<^verbatim>\<open>Value\<close>, its equality for \<^verbatim>\<open>===\<close>, and the parameter \<open>str\<close> of the functions
  that search for \<^verbatim>\<open>String(value)\<close>. Strings are lists of characters with codes
  below 256.
\<close>

subsection \<open>Data model\<close>

text \<open>
  \<^verbatim>\<open>disabled?: boolean | string\<close>: the field is absent, a boolean, or a string giving
  the reason. JavaScript truthiness decides selectability: \<^verbatim>\<open>undefined\<close>,
  \<^verbatim>\<open>false\<close> and the empty string are falsy. The field \<^verbatim>\<open>value\<close> of a choice is
  \<open>val\<close> here, and the \<^verbatim>\<open>first\<close> and \<^verbatim>\<open>last\<close> of the bounds are \<open>first_ix\<close>
  and \<open>last_ix\<close>.
\<close>

datatype disabled_flag = DisabledBool bool | DisabledStr string

record 'v Choice =
  val :: 'v
  name :: "string option"
  description :: "string option"
  disabled :: "disabled_flag option"

datatype 'v Item = Separator string | Choice "'v Choice"

record 'v SelectConfig =
  message :: string
  choices :: "'v Item list"
  pageSize :: "int option"
  loop :: "bool option"
  default :: "'v option"

datatype Status = Pending | Done

datatype error = ValidationError | TypeError

record Bounds =
  first_ix :: int
  last_ix :: int

text \<open>Truthiness of an optional \<^verbatim>\<open>boolean | string\<close> and of an optional string.\<close>

fun truthy_disabled :: "disabled_flag option \<Rightarrow> bool" where
  "truthy_disabled None = False"
| "truthy_disabled (Some (DisabledBool b)) = b"
| "truthy_disabled (Some (DisabledStr s)) = (s \<noteq> [])"

fun isSeparator :: "'v Item \<Rightarrow> bool" where
  "isSeparator (Separator _) = True"
| "isSeparator (Choice _) = False"

text \<open>\<^verbatim>\<open>!Separator.isSeparator(item) && !item.disabled\<close>\<close>

fun isSelectable :: "'v Item \<Rightarrow> bool" where
  "isSelectable (Separator _) = False"
| "isSelectable (Choice c) = (\<not> truthy_disabled (disabled c))"

text \<open>\<^verbatim>\<open>Array.prototype.findIndex\<close>: the first index whose element satisfies the
  predicate, or \<open>-1\<close>.\<close>

fun findIndex :: "('a \<Rightarrow> bool) \<Rightarrow> 'a list \<Rightarrow> int" where
  "findIndex P [] = - 1"
| "findIndex P (x # xs) =
     (if P x then 0 else (let r = findIndex P xs in if r < 0 then - 1 else r + 1))"

text \<open>\<^verbatim>\<open>items[i]\<close> for a number \<open>i\<close>: \<^verbatim>\<open>undefined\<close> (here \<open>None\<close>) outside the
  array.\<close>

definition item_at :: "'a list \<Rightarrow> int \<Rightarrow> 'a option" where
  "item_at xs i = (if 0 \<le> i \<and> i < int (length xs) then Some (xs ! nat i) else None)"

subsection \<open>Bounds\<close>

text \<open>
  The memoised \<^verbatim>\<open>bounds\<close>: both indices are computed first, then the guard on
  \<^verbatim>\<open>first\<close> throws the \<^verbatim>\<open>ValidationError\<close>.
\<close>

definition bounds :: "'v Item list \<Rightarrow> error + Bounds" where
  "bounds items =
     (let first = findIndex isSelectable items;
          last = int (length items) - 1 - findIndex isSelectable (rev items)
      in if first < 0 then Inl ValidationError
         else Inr \<lparr>first_ix = first, last_ix = last\<rparr>)"

subsection \<open>Construction\<close>

text \<open>
  Destructuring defaults of the configuration: \<^verbatim>\<open>loop = true, pageSize = 7\<close>.
\<close>

definition loop_of :: "'v SelectConfig \<Rightarrow> bool" where
  "loop_of config = (case loop config of None \<Rightarrow> True | Some b \<Rightarrow> b)"

definition pageSize_of :: "'v SelectConfig \<Rightarrow> int" where
  "pageSize_of config = (case pageSize config of None \<Rightarrow> 7 | Some p \<Rightarrow> p)"

text \<open>
  \<^verbatim>\<open>defaultItemIndex\<close>: \<open>-1\<close> when the configuration has no \<^verbatim>\<open>default\<close> key,
  otherwise the first selectable item whose value is strictly equal to it.
\<close>

definition defaultItemIndex :: "'v SelectConfig \<Rightarrow> int" where
  "defaultItemIndex config =
     (case default config of
        None \<Rightarrow> - 1
      | Some d \<Rightarrow>
          findIndex (\<lambda>item. case item of Separator _ \<Rightarrow> False
                            | Choice c \<Rightarrow> isSelectable item \<and> val c = d)
            (choices config))"

text \<open>
  The state of one prompt session. \<open>active\<close> and \<open>status\<close> are the two
  \<^verbatim>\<open>useState\<close> cells, \<open>firstRender\<close> and \<open>searchTimeoutRef\<close> the two
  \<^verbatim>\<open>useRef\<close> cells. The environment the handler acts on is made explicit:
  \<open>line\<close> is \<^verbatim>\<open>rl.line\<close>, \<open>timers\<close> is the table of pending timeouts (handle and
  delay in milliseconds; the only callback ever scheduled clears the line),
  \<open>next_handle\<close> the next fresh timer handle, and \<open>emitted\<close> the arguments
  \<^verbatim>\<open>done\<close> has been called with (\<open>None\<close> for \<^verbatim>\<open>undefined\<close>).
\<close>

record 'v PromptState =
  active :: int
  status :: Status
  firstRender :: bool
  searchTimeoutRef :: "nat option"
  line :: string
  timers :: "(nat \<times> nat) list"
  next_handle :: nat
  emitted :: "'v option list"

text \<open>
  The first evaluation of the view function up to the \<^verbatim>\<open>useState\<close> of
  \<open>active\<close>: it throws when \<^verbatim>\<open>bounds\<close> throws.
\<close>

definition initial_state :: "'v SelectConfig \<Rightarrow> error + 'v PromptState" where
  "initial_state config =
     (case bounds (choices config) of
        Inl e \<Rightarrow> Inl e
      | Inr b \<Rightarrow>
          Inr \<lparr>active = (if defaultItemIndex config = - 1 then first_ix b
                          else defaultItemIndex config),
               status = Pending,
               firstRender = True,
               searchTimeoutRef = None,
               line = [],
               timers = [],
               next_handle = 0,
               emitted = []\<rparr>)"

subsection \<open>Key events\<close>

text \<open>
  The classification of a key by \<^verbatim>\<open>isEnterKey\<close>, \<^verbatim>\<open>isUpKey\<close>,
  \<^verbatim>\<open>isDownKey\<close>, \<^verbatim>\<open>isNumberKey\<close> and \<^verbatim>\<open>isBackspaceKey\<close>, in the order
  the handler tests them; \<open>Digit d\<close> carries \<^verbatim>\<open>Number(key.name)\<close>.
\<close>

datatype key = Enter | Up | Down | Digit nat | Backspace | Other

text \<open>
  The remainder operator \<^verbatim>\<open>%\<close> on integers takes the sign of the dividend. For a
  zero divisor JavaScript yields \<^verbatim>\<open>NaN\<close>; the only divisor used is the length of
  the item list, and an empty list has no element at any index, \<^verbatim>\<open>NaN\<close> included.
\<close>

definition js_rem :: "int \<Rightarrow> int \<Rightarrow> int" where
  "js_rem a b = (if a < 0 then - ((- a) mod \<bar>b\<bar>) else a mod \<bar>b\<bar>)"

text \<open>
  The \<^verbatim>\<open>do ... while\<close> loop of the arrow keys. Reading \<^verbatim>\<open>.disabled\<close> of
  \<^verbatim>\<open>undefined\<close> throws a \<^verbatim>\<open>TypeError\<close>. The loop has no bound of its own, so
  not returning is the value \<open>None\<close>.
\<close>

partial_function (option) skip_loop ::
  "'v Item list \<Rightarrow> int \<Rightarrow> int \<Rightarrow> (error + int) option" where
  "skip_loop items offset next =
     (let next' = js_rem (next + offset + int (length items)) (int (length items))
      in case item_at items next' of
           None \<Rightarrow> Some (Inl TypeError)
         | Some item \<Rightarrow>
             if isSelectable item then Some (Inr next')
             else skip_loop items offset next')"

declare skip_loop.simps [code]

text \<open>The same loop body, run for at most \<open>fuel\<close> iterations.\<close>

fun skip_fuel :: "nat \<Rightarrow> 'v Item list \<Rightarrow> int \<Rightarrow> int \<Rightarrow> (error + int) option" where
  "skip_fuel 0 items offset next = None"
| "skip_fuel (Suc fuel) items offset next =
     (let next' = js_rem (next + offset + int (length items)) (int (length items))
      in case item_at items next' of
           None \<Rightarrow> Some (Inl TypeError)
         | Some item \<Rightarrow>
             if isSelectable item then Some (Inr next')
             else skip_fuel fuel items offset next')"

text \<open>\<^verbatim>\<open>clearTimeout(handle)\<close>: no effect for \<^verbatim>\<open>undefined\<close> or a handle that is
  not pending.\<close>

definition clearTimeout :: "nat option \<Rightarrow> (nat \<times> nat) list \<Rightarrow> (nat \<times> nat) list" where
  "clearTimeout h ts =
     (case h of None \<Rightarrow> ts | Some i \<Rightarrow> filter (\<lambda>t. fst t \<noteq> i) ts)"

text \<open>\<^verbatim>\<open>rl.clearLine(0)\<close> empties the input line, the search buffer.\<close>

definition clearLine :: "'v PromptState \<Rightarrow> 'v PromptState" where
  "clearLine st = st\<lparr>line := []\<rparr>"

text \<open>
  A character is a UTF-16 code unit below 256: Basic Latin and the Latin-1 Supplement. On
  strings of such characters \<^verbatim>\<open>String.prototype.toLowerCase\<close> acts character by
  character: the upper-case letters are \<open>A\<close> to \<open>Z\<close> (codes 65 to 90) and the accented
  capitals of codes 192 to 222 but for the multiplication sign 215, and the lower-case
  form of each has its code plus 32; every other character is left as it is.
\<close>

definition lower_char :: "char \<Rightarrow> char" where
  "lower_char c =
     (let n = (of_char c :: nat)
      in if (65 \<le> n \<and> n \<le> 90) \<or> (192 \<le> n \<and> n \<le> 222 \<and> n \<noteq> 215)
         then char_of (n + 32) else c)"

definition toLowerCase :: "string \<Rightarrow> string" where
  "toLowerCase s = map lower_char s"

text \<open>\<^verbatim>\<open>String.prototype.startsWith\<close>\<close>

definition startsWith :: "string \<Rightarrow> string \<Rightarrow> bool" where
  "startsWith s p = (take (length p) s = p)"

text \<open>
  \<^verbatim>\<open>String(item.name || item.value)\<close>: the name when it is a non-empty string,
  otherwise the value converted by \<^verbatim>\<open>String\<close>, which is the parameter \<open>str\<close>.
\<close>

definition label :: "('v \<Rightarrow> string) \<Rightarrow> 'v Choice \<Rightarrow> string" where
  "label str c =
     (case name c of
        Some n \<Rightarrow> if n \<noteq> [] then n else str (val c)
      | None \<Rightarrow> str (val c))"

text \<open>The predicate of the search's \<^verbatim>\<open>findIndex\<close>.\<close>

definition search_match :: "('v \<Rightarrow> string) \<Rightarrow> string \<Rightarrow> 'v Item \<Rightarrow> bool" where
  "search_match str searchTerm item =
     (if isSeparator item \<or> \<not> isSelectable item then False
      else case item of
             Separator _ \<Rightarrow> False
           | Choice c \<Rightarrow> startsWith (toLowerCase (label str c)) searchTerm)"

text \<open>\<^verbatim>\<open>selectedChoice.value\<close> where \<^verbatim>\<open>selectedChoice = items[active]\<close>: a
  separator has no such property.\<close>

fun value_of :: "'v Item \<Rightarrow> 'v option" where
  "value_of (Separator _) = None"
| "value_of (Choice c) = Some (val c)"

text \<open>
  The keypress handler, with the \<^verbatim>\<open>bounds\<close> of its closure. It never reads
  \<open>status\<close>.
\<close>

definition handler ::
  "('v \<Rightarrow> string) \<Rightarrow> 'v SelectConfig \<Rightarrow> Bounds \<Rightarrow> key \<Rightarrow> 'v PromptState
     \<Rightarrow> (error + 'v PromptState) option" where
  "handler str config b k st0 =
     (let items = choices config;
          st = st0\<lparr>timers := clearTimeout (searchTimeoutRef st0) (timers st0)\<rparr>
      in if k = Enter then
           (case item_at items (active st) of
              None \<Rightarrow> Some (Inl TypeError)
            | Some selectedChoice \<Rightarrow>
                Some (Inr (st\<lparr>status := Done,
                               emitted := emitted st @ [value_of selectedChoice]\<rparr>)))
         else if k = Up \<or> k = Down then
           (if loop_of config
               \<or> (k = Up \<and> active st \<noteq> first_ix b)
               \<or> (k = Down \<and> active st \<noteq> last_ix b)
            then
              (case skip_loop items (if k = Up then - 1 else 1) (active st) of
                 None \<Rightarrow> None
               | Some (Inl e) \<Rightarrow> Some (Inl e)
               | Some (Inr next) \<Rightarrow> Some (Inr ((clearLine st)\<lparr>active := next\<rparr>)))
            else Some (Inr (clearLine st)))
         else case k of
           Digit d \<Rightarrow>
             (let position = int d - 1
              in case item_at items position of
                   None \<Rightarrow> Some (Inr (clearLine st))
                 | Some item \<Rightarrow>
                     if isSelectable item
                     then Some (Inr ((clearLine st)\<lparr>active := position\<rparr>))
                     else Some (Inr (clearLine st)))
         | Backspace \<Rightarrow> Some (Inr (clearLine st))
         | _ \<Rightarrow>
             (let searchTerm = toLowerCase (line st);
                  matchIndex = findIndex (search_match str searchTerm) items;
                  st1 = (if 0 \<le> matchIndex then st\<lparr>active := matchIndex\<rparr> else st)
              in Some (Inr (st1\<lparr>searchTimeoutRef := Some (next_handle st1),
                                timers := timers st1 @ [(next_handle st1, 700)],
                                next_handle := Suc (next_handle st1)\<rparr>))))"

text \<open>A key event reaches the handler of a view function that has computed its
  \<^verbatim>\<open>bounds\<close>.\<close>

definition keypress ::
  "('v \<Rightarrow> string) \<Rightarrow> 'v SelectConfig \<Rightarrow> key \<Rightarrow> 'v PromptState
     \<Rightarrow> (error + 'v PromptState) option" where
  "keypress str config k st =
     (case bounds (choices config) of
        Inl e \<Rightarrow> Some (Inl e)
      | Inr b \<Rightarrow> handler str config b k st)"

subsection \<open>Rendering and sessions\<close>

text \<open>The help tip of the header: the hint and the updated \<open>firstRender\<close> cell.\<close>

definition helpTip :: "'v SelectConfig \<Rightarrow> 'v PromptState \<Rightarrow> string option \<times> 'v PromptState" where
  "helpTip config st =
     (if firstRender st \<and> int (length (choices config)) \<le> pageSize_of config
      then (Some ''(Use arrow keys)'', st\<lparr>firstRender := False\<rparr>)
      else (None, st))"

text \<open>A pending timeout fires: it leaves the table and its callback clears the line.\<close>

definition fire :: "nat \<Rightarrow> 'v PromptState \<Rightarrow> 'v PromptState" where
  "fire h st =
     (if h \<in> fst ` set (timers st)
      then clearLine (st\<lparr>timers := filter (\<lambda>t. fst t \<noteq> h) (timers st)\<rparr>)
      else st)"

text \<open>
  What can happen to a session after its construction: a key reaches the handler, the
  terminal's line editor changes \<^verbatim>\<open>rl.line\<close>, a timeout fires, the view is rendered.
\<close>

datatype event = Keypress key | Edit string | Timeout nat | Render

definition step ::
  "('v \<Rightarrow> string) \<Rightarrow> 'v SelectConfig \<Rightarrow> event \<Rightarrow> 'v PromptState
     \<Rightarrow> (error + 'v PromptState) option" where
  "step str config ev st =
     (case ev of
        Keypress k \<Rightarrow> keypress str config k st
      | Edit s \<Rightarrow> Some (Inr (st\<lparr>line := s\<rparr>))
      | Timeout h \<Rightarrow> Some (Inr (fire h st))
      | Render \<Rightarrow> Some (Inr (snd (helpTip config st))))"

fun run ::
  "('v \<Rightarrow> string) \<Rightarrow> 'v SelectConfig \<Rightarrow> event list \<Rightarrow> 'v PromptState
     \<Rightarrow> (error + 'v PromptState) option" where
  "run str config [] st = Some (Inr st)"
| "run str config (ev # evs) st =
     (case step str config ev st of
        None \<Rightarrow> None
      | Some (Inl e) \<Rightarrow> Some (Inl e)
      | Some (Inr st') \<Rightarrow> run str config evs st')"

text \<open>The item at an index exists and is selectable.\<close>

definition selectable_at :: "'v Item list \<Rightarrow> int \<Rightarrow> bool" where
  "selectable_at items i =
     (case item_at items i of None \<Rightarrow> False | Some item \<Rightarrow> isSelectable item)"

text \<open>The invariant of the cursor: \<open>active\<close> is the index of a selectable choice.\<close>

definition active_selectable :: "'v SelectConfig \<Rightarrow> 'v PromptState \<Rightarrow> bool" where
  "active_selectable config st = selectable_at (choices config) (active st)"

text \<open>
  The timer table of a session: nothing is pending, or only the timeout that
  \<open>searchTimeoutRef\<close> holds, with its delay of 700 ms.
\<close>

definition timers_ok :: "'v PromptState \<Rightarrow> bool" where
  "timers_ok st =
     (case searchTimeoutRef st of
        None \<Rightarrow> timers st = []
      | Some h \<Rightarrow> timers st = [] \<or> timers st = [(h, 700)])"

text \<open>The invariant of a session.\<close>

definition session_inv :: "'v SelectConfig \<Rightarrow> 'v PromptState \<Rightarrow> bool" where
  "session_inv config st = (active_selectable config st \<and> timers_ok st)"






subsection \<open>Example configurations\<close>

definition choice :: "string \<Rightarrow> string Item" where
  "choice v = Choice \<lparr>val = v, name = None, description = None, disabled = None\<rparr>"


definition disabled_choice :: "string \<Rightarrow> string Item" where
  "disabled_choice v =
     Choice \<lparr>val = v, name = None, description = None,
             disabled = Some (DisabledBool True)\<rparr>"

definition config_of :: "string Item list \<Rightarrow> bool option \<Rightarrow> string option \<Rightarrow> string SelectConfig" where
  "config_of items lp dflt =
     \<lparr>message = ''Pick one'', choices = items, pageSize = None, loop = lp,
      default = dflt\<rparr>"

text \<open>\<open>[A, B (disabled), C]\<close>, \<open>[A, B, C]\<close> and a list without a selectable item.\<close>

definition items_ABdC :: "string Item list" where
  "items_ABdC = [choice ''A'', disabled_choice ''B'', choice ''C'']"

definition items_ABC :: "string Item list" where
  "items_ABC = [choice ''A'', choice ''B'', choice ''C'']"

definition items_none :: "string Item list" where
  "items_none = [disabled_choice ''A'', Separator ''--'']"

text \<open>A pending state, already rendered, with the cursor at a given index.\<close>

definition state_at :: "int \<Rightarrow> string PromptState" where
  "state_at i =
     \<lparr>active = i, status = Pending, firstRender = False, searchTimeoutRef = None,
      line = [], timers = [], next_handle = 0, emitted = []\<rparr>"


text \<open>The state a construction returns, with the cursor at a given index.\<close>

definition init_ABC :: "int \<Rightarrow> string PromptState" where
  "init_ABC i =
     \<lparr>active = i, status = Pending, firstRender = True, searchTimeoutRef = None,
      line = [], timers = [], next_handle = 0, emitted = []\<rparr>"

text \<open>The state after Enter in the initial state of \<open>[A, B, C]\<close>.\<close>

definition done_ABC :: "string PromptState" where
  "done_ABC = (init_ABC 0)\<lparr>status := Done, emitted := [Some ''A'']\<rparr>"

section \<open>Properties\<close>

subsection \<open>\<open>findIndex\<close>\<close>

lemma findIndex_range: "- 1 \<le> findIndex P xs \<and> findIndex P xs < int (length xs)"
  by (induction xs) (auto simp: Let_def)

lemma findIndex_neg_iff: "findIndex P xs < 0 \<longleftrightarrow> (\<forall>x \<in> set xs. \<not> P x)"
  using findIndex_range [of P] by (induction xs) (auto simp: Let_def)

lemma findIndex_none: "(\<forall>x \<in> set xs. \<not> P x) \<Longrightarrow> findIndex P xs = - 1"
  using findIndex_neg_iff [of P xs] findIndex_range [of P xs] by simp

lemma findIndex_holds: "0 \<le> findIndex P xs \<Longrightarrow> P (xs ! nat (findIndex P xs))"
proof (induction xs)
  case Nil
  then show ?case by simp
next
  case (Cons x xs)
  show ?case
  proof (cases "P x")
    case True
    then show ?thesis by simp
  next
    case False
    with Cons.prems have r: "0 \<le> findIndex P xs"
      by (simp add: Let_def split: if_splits)
    with False Cons.IH show ?thesis
      by (simp add: Let_def nat_add_distrib)
  qed
qed

lemma findIndex_least: "j < nat (findIndex P xs) \<Longrightarrow> \<not> P (xs ! j)"
proof (induction xs arbitrary: j)
  case Nil
  then show ?case by simp
next
  case (Cons x xs)
  show ?case
  proof (cases "P x")
    case True
    with Cons.prems show ?thesis by simp
  next
    case False
    show ?thesis
    proof (cases j)
      case 0
      with False show ?thesis by simp
    next
      case (Suc i)
      with Cons.prems False have "i < nat (findIndex P xs)"
        by (simp add: Let_def nat_add_distrib split: if_splits)
      with Cons.IH Suc show ?thesis by simp
    qed
  qed
qed

lemma findIndex_le: "i < length xs \<Longrightarrow> P (xs ! i) \<Longrightarrow> findIndex P xs \<le> int i"
proof -
  assume i: "i < length xs" and p: "P (xs ! i)"
  have "\<not> int i < findIndex P xs"
  proof
    assume "int i < findIndex P xs"
    then have "i < nat (findIndex P xs)" by simp
    from findIndex_least [OF this] p show False by simp
  qed
  then show ?thesis by simp
qed

lemma findIndex_found:
  assumes "\<exists>x \<in> set xs. P x"
  shows "0 \<le> findIndex P xs" "nat (findIndex P xs) < length xs"
    "P (xs ! nat (findIndex P xs))"
proof -
  from assms findIndex_neg_iff [of P xs] show nonneg: "0 \<le> findIndex P xs" by auto
  from nonneg findIndex_range [of P xs] show "nat (findIndex P xs) < length xs" by simp
  from nonneg show "P (xs ! nat (findIndex P xs))" by (rule findIndex_holds)
qed

subsection \<open>Bounds\<close>

lemma rev_findIndex_holds:
  assumes "\<exists>x \<in> set xs. P x"
  defines "l \<equiv> int (length xs) - 1 - findIndex P (rev xs)"
  shows "0 \<le> l" "l < int (length xs)" "P (xs ! nat l)"
proof -
  let ?r = "findIndex P (rev xs)"
  from assms(1) have ex: "\<exists>x \<in> set (rev xs). P x" by simp
  note f = findIndex_found [OF ex]
  from f(1) f(2) show "0 \<le> l" "l < int (length xs)" by (simp_all add: l_def)
  from f(2) have "rev xs ! nat ?r = xs ! (length xs - Suc (nat ?r))"
    by (simp add: rev_nth)
  moreover from f(1) f(2) have "nat l = length xs - Suc (nat ?r)"
    by (simp add: l_def)
  ultimately show "P (xs ! nat l)" using f(3) by simp
qed

lemma bounds_ok:
  assumes "\<exists>x \<in> set items. isSelectable x"
  shows "\<exists>b. bounds items = Inr b
           \<and> first_ix b = findIndex isSelectable items
           \<and> last_ix b = int (length items) - 1 - findIndex isSelectable (rev items)
           \<and> 0 \<le> first_ix b \<and> first_ix b \<le> last_ix b \<and> last_ix b < int (length items)
           \<and> isSelectable (items ! nat (first_ix b))
           \<and> isSelectable (items ! nat (last_ix b))"
proof -
  let ?f = "findIndex isSelectable items"
  let ?l = "int (length items) - 1 - findIndex isSelectable (rev items)"
  note f = findIndex_found [OF assms]
  note l = rev_findIndex_holds [OF assms]
  from l have "?f \<le> int (nat ?l)"
    by (intro findIndex_le) simp_all
  with l(1) have "?f \<le> ?l" by simp
  with f l show ?thesis
    by (simp add: bounds_def Let_def)
qed

lemma bounds_fail:
  assumes "\<forall>x \<in> set items. \<not> isSelectable x"
  shows "bounds items = Inl ValidationError"
  using findIndex_none [of items isSelectable] assms by (simp add: bounds_def Let_def)

subsection \<open>The skip loop of the arrow keys\<close>

lemma js_rem_step:
  assumes "0 \<le> p" "p < n" "off = 1 \<or> off = - 1"
  shows "js_rem (p + off + n) n = (p + off) mod n"
proof -
  from assms have "0 \<le> p + off + n" "0 < n" by auto
  then show ?thesis by (simp add: js_rem_def)
qed

lemma item_at_in_range:
  "0 \<le> i \<Longrightarrow> i < int (length xs) \<Longrightarrow> item_at xs i = Some (xs ! nat i)"
  by (simp add: item_at_def)

lemma skip_fuel_least:
  assumes "0 \<le> p" "p < int (length items)" "off = 1 \<or> off = - 1"
    and "1 \<le> k" "k \<le> fuel"
    and "isSelectable (items ! nat ((p + off * int k) mod int (length items)))"
    and "\<forall>j. 1 \<le> j \<and> j < k \<longrightarrow>
           \<not> isSelectable (items ! nat ((p + off * int j) mod int (length items)))"
  shows "skip_fuel fuel items off p = Some (Inr ((p + off * int k) mod int (length items)))"
  using assms
proof (induction k arbitrary: p fuel)
  case 0
  then show ?case by simp
next
  case (Suc k)
  let ?n = "int (length items)"
  let ?q = "(p + off) mod ?n"
  from Suc.prems obtain f where fuel: "fuel = Suc f" and kf: "k \<le> f"
    by (cases fuel) auto
  from Suc.prems have npos: "0 < ?n" by linarith
  then have q: "0 \<le> ?q" "?q < ?n" by simp_all
  have next_eq: "js_rem (p + off + ?n) ?n = ?q"
    using Suc.prems(1-3) by (rule js_rem_step)
  have at: "item_at items ?q = Some (items ! nat ?q)"
    using q by (rule item_at_in_range)
  show ?case
  proof (cases "k = 0")
    case True
    with Suc.prems(6) have "isSelectable (items ! nat ?q)" by simp
    with True show ?thesis by (simp add: fuel next_eq at)
  next
    case False
    then have k1: "1 \<le> k" by simp
    have shift: "(?q + off * int i) mod ?n = (p + off * int (Suc i)) mod ?n" for i
    proof -
      have "(?q + off * int i) mod ?n = (p + off + off * int i) mod ?n"
        by (simp add: mod_add_left_eq)
      also have "p + off + off * int i = p + off * int (Suc i)"
        by (simp add: algebra_simps)
      finally show ?thesis .
    qed
    from Suc.prems(7) k1 have nsel: "\<not> isSelectable (items ! nat ?q)"
      by (auto dest!: spec [of _ 1])
    have "skip_fuel f items off ?q = Some (Inr ((?q + off * int k) mod ?n))"
    proof (rule Suc.IH [OF q Suc.prems(3) k1 kf])
      show "isSelectable (items ! nat ((?q + off * int k) mod ?n))"
        using Suc.prems(6) by (simp only: shift)
      show "\<forall>j. 1 \<le> j \<and> j < k \<longrightarrow> \<not> isSelectable (items ! nat ((?q + off * int j) mod ?n))"
      proof (intro allI impI)
        fix j assume "1 \<le> j \<and> j < k"
        then have "1 \<le> Suc j \<and> Suc j < Suc k" by simp
        with Suc.prems(7) show "\<not> isSelectable (items ! nat ((?q + off * int j) mod ?n))"
          by (simp only: shift) blast
      qed
    qed
    with nsel show ?thesis by (simp add: fuel next_eq at shift)
  qed
qed

lemma skip_fuel_loop:
  "skip_fuel fuel items off p = Some r \<Longrightarrow> skip_loop items off p = Some r"
proof (induction fuel arbitrary: p)
  case 0
  then show ?case by simp
next
  case (Suc fuel)
  show ?case
    using Suc.prems Suc.IH
    by (subst skip_loop.simps) (auto simp: Let_def split: option.splits if_splits)
qed

lemma reach_selectable:
  assumes "0 \<le> p" "p < int (length items)" "off = 1 \<or> off = - 1"
    and "s < length items" "isSelectable (items ! s)"
  shows "\<exists>k. 1 \<le> k \<and> k \<le> length items
           \<and> isSelectable (items ! nat ((p + off * int k) mod int (length items)))"
proof -
  let ?n = "int (length items)"
  let ?d = "(off * (int s - p)) mod ?n"
  from assms have npos: "0 < ?n" by linarith
  have oo: "off * off = 1" using assms(3) by auto
  have d: "0 \<le> ?d" "?d < ?n" using npos by simp_all
  have "(p + off * ?d) mod ?n = (p + off * (off * (int s - p))) mod ?n"
    by (metis mod_add_right_eq mod_mult_right_eq)
  also have "off * (off * (int s - p)) = int s - p"
    using oo by (simp add: mult.assoc [symmetric])
  finally have tgt: "(p + off * ?d) mod ?n = int s"
    using assms(4) by simp
  show ?thesis
  proof (cases "?d = 0")
    case True
    with tgt have ps: "p = int s" using assms(1,2) by simp
    have "(p + off * int (length items)) mod ?n = p"
      using assms(1,2) by simp
    moreover from npos have "1 \<le> length items" by (cases items) simp_all
    ultimately show ?thesis using ps assms(5)
      by (intro exI [of _ "length items"]) simp
  next
    case False
    with d have "1 \<le> nat ?d" "nat ?d \<le> length items" by simp_all
    moreover have "int (nat ?d) = ?d" using d by simp
    ultimately show ?thesis using tgt assms(5)
      by (intro exI [of _ "nat ?d"]) simp
  qed
qed

lemma skip_result:
  assumes "0 \<le> p" "p < int (length items)" "off = 1 \<or> off = - 1"
    and "\<exists>x \<in> set items. isSelectable x"
  shows "\<exists>k. 1 \<le> k \<and> k \<le> length items
           \<and> skip_fuel (length items) items off p
               = Some (Inr ((p + off * int k) mod int (length items)))
           \<and> skip_loop items off p
               = Some (Inr ((p + off * int k) mod int (length items)))
           \<and> isSelectable (items ! nat ((p + off * int k) mod int (length items)))
           \<and> (\<forall>j. 1 \<le> j \<and> j < k \<longrightarrow>
                 \<not> isSelectable (items ! nat ((p + off * int j) mod int (length items))))"
proof -
  let ?P = "\<lambda>k. 1 \<le> k \<and> k \<le> length items
           \<and> isSelectable (items ! nat ((p + off * int k) mod int (length items)))"
  from assms(4) obtain s where "s < length items" "isSelectable (items ! s)"
    by (auto simp: in_set_conv_nth)
  from reach_selectable [OF assms(1-3) this] have ex: "\<exists>k. ?P k" .
  define k where "k = (LEAST k. ?P k)"
  from ex have Pk: "?P k" unfolding k_def by (rule LeastI_ex)
  have least: "\<not> ?P j" if "j < k" for j
    using that not_less_Least unfolding k_def by blast
  have nsel: "\<forall>j. 1 \<le> j \<and> j < k \<longrightarrow>
                 \<not> isSelectable (items ! nat ((p + off * int j) mod int (length items)))"
  proof (intro allI impI)
    fix j assume j: "1 \<le> j \<and> j < k"
    with Pk have "j \<le> length items" by simp
    with least [of j] j show "\<not> isSelectable (items ! nat ((p + off * int j) mod int (length items)))"
      by simp
  qed
  have fuel: "skip_fuel (length items) items off p
               = Some (Inr ((p + off * int k) mod int (length items)))"
    using assms(1-3) Pk nsel by (intro skip_fuel_least) simp_all
  from skip_fuel_loop [OF fuel] fuel Pk nsel show ?thesis by blast
qed

lemma selectable_at_iff:
  "selectable_at items i \<longleftrightarrow>
     0 \<le> i \<and> i < int (length items) \<and> isSelectable (items ! nat i)"
  by (auto simp: selectable_at_def item_at_def)

lemma selectable_at_ex: "selectable_at items i \<Longrightarrow> \<exists>x \<in> set items. isSelectable x"
  by (auto simp: selectable_at_iff)

subsection \<open>The handler, key by key\<close>

lemma handler_Enter:
  "handler str config b Enter st =
     (case item_at (choices config) (active st) of
        None \<Rightarrow> Some (Inl TypeError)
      | Some selectedChoice \<Rightarrow>
          Some (Inr (st\<lparr>timers := clearTimeout (searchTimeoutRef st) (timers st),
                         status := Done,
                         emitted := emitted st @ [value_of selectedChoice]\<rparr>)))"
  by (simp add: handler_def Let_def split: option.splits)

lemma handler_arrow:
  assumes "k = Up \<or> k = Down"
  shows "handler str config b k st =
     (if loop_of config \<or> (k = Up \<and> active st \<noteq> first_ix b)
           \<or> (k = Down \<and> active st \<noteq> last_ix b)
      then (case skip_loop (choices config) (if k = Up then - 1 else 1) (active st) of
              None \<Rightarrow> None
            | Some (Inl e) \<Rightarrow> Some (Inl e)
            | Some (Inr next) \<Rightarrow>
                Some (Inr (st\<lparr>timers := clearTimeout (searchTimeoutRef st) (timers st),
                               line := [], active := next\<rparr>)))
      else Some (Inr (st\<lparr>timers := clearTimeout (searchTimeoutRef st) (timers st),
                          line := []\<rparr>)))"
  using assms
  by (auto simp: handler_def Let_def clearLine_def split: option.splits sum.splits)

lemma handler_Digit:
  "handler str config b (Digit d) st =
     Some (Inr (if selectable_at (choices config) (int d - 1)
                then st\<lparr>timers := clearTimeout (searchTimeoutRef st) (timers st),
                        line := [], active := int d - 1\<rparr>
                else st\<lparr>timers := clearTimeout (searchTimeoutRef st) (timers st),
                        line := []\<rparr>))"
  by (simp add: handler_def Let_def clearLine_def selectable_at_def split: option.splits)

lemma handler_Backspace:
  "handler str config b Backspace st =
     Some (Inr (st\<lparr>timers := clearTimeout (searchTimeoutRef st) (timers st), line := []\<rparr>))"
  by (simp add: handler_def Let_def clearLine_def)

lemma handler_Other:
  "handler str config b Other st =
     Some (Inr (st\<lparr>timers := clearTimeout (searchTimeoutRef st) (timers st)
                             @ [(next_handle st, 700)],
                    active := (if 0 \<le> findIndex (search_match str (toLowerCase (line st)))
                                        (choices config)
                               then findIndex (search_match str (toLowerCase (line st)))
                                      (choices config)
                               else active st),
                    searchTimeoutRef := Some (next_handle st),
                    next_handle := Suc (next_handle st)\<rparr>))"
  by (simp add: handler_def Let_def)


lemma keypress_handler:
  "bounds (choices config) = Inr b \<Longrightarrow> keypress str config k st = handler str config b k st"
  by (simp add: keypress_def)

lemma mod_index_range:
  "selectable_at items p \<Longrightarrow>
     0 \<le> i mod int (length items) \<and> i mod int (length items) < int (length items)"
proof -
  assume "selectable_at items p"
  then have "0 < int (length items)" by (auto simp: selectable_at_iff)
  then show ?thesis by simp
qed

lemma arrow_moves:
  assumes b: "bounds (choices config) = Inr b"
    and act: "active_selectable config st"
    and k: "k = Up \<or> k = Down"
  shows "\<exists>st'. keypress str config k st = Some (Inr st')
     \<and> status st' = status st \<and> emitted st' = emitted st \<and> firstRender st' = firstRender st
     \<and> timers st' = clearTimeout (searchTimeoutRef st) (timers st)
     \<and> searchTimeoutRef st' = searchTimeoutRef st
     \<and> (if loop_of config \<or> (k = Up \<and> active st \<noteq> first_ix b)
             \<or> (k = Down \<and> active st \<noteq> last_ix b)
         then \<exists>n. 1 \<le> n \<and> n \<le> length (choices config)
                \<and> active st' = (active st + (if k = Up then - 1 else 1) * int n)
                                  mod int (length (choices config))
                \<and> selectable_at (choices config) (active st')
                \<and> (\<forall>j. 1 \<le> j \<and> j < n \<longrightarrow>
                      \<not> selectable_at (choices config)
                          ((active st + (if k = Up then - 1 else 1) * int j)
                             mod int (length (choices config))))
         else active st' = active st)"
proof -
  let ?items = "choices config"
  let ?off = "if k = Up then - 1 else (1::int)"
  let ?go = "loop_of config \<or> (k = Up \<and> active st \<noteq> first_ix b)
             \<or> (k = Down \<and> active st \<noteq> last_ix b)"
  from act have sel: "selectable_at ?items (active st)"
    by (simp add: active_selectable_def)
  show ?thesis
  proof (cases ?go)
    case False
    let ?st' = "st\<lparr>timers := clearTimeout (searchTimeoutRef st) (timers st), line := []\<rparr>"
    have kp: "keypress str config k st = Some (Inr ?st')"
      using False by (simp only: keypress_handler [OF b] handler_arrow [OF k] if_False)
    show ?thesis
      by (rule exI [of _ ?st'], simp only: kp if_not_P [OF False]) simp
  next
    case True
    from sel have rng: "0 \<le> active st" "active st < int (length ?items)"
      by (simp_all add: selectable_at_iff)
    have off: "?off = 1 \<or> ?off = - 1" by simp
    from skip_result [OF rng off selectable_at_ex [OF sel]]
    obtain n where n: "1 \<le> n" "n \<le> length ?items"
      "skip_loop ?items ?off (active st)
         = Some (Inr ((active st + ?off * int n) mod int (length ?items)))"
      "isSelectable (?items ! nat ((active st + ?off * int n) mod int (length ?items)))"
      "\<forall>j. 1 \<le> j \<and> j < n \<longrightarrow>
         \<not> isSelectable (?items ! nat ((active st + ?off * int j) mod int (length ?items)))"
      by blast
    let ?st' = "st\<lparr>timers := clearTimeout (searchTimeoutRef st) (timers st),
                   line := [],
                   active := (active st + ?off * int n) mod int (length ?items)\<rparr>"
    have kp: "keypress str config k st = Some (Inr ?st')"
      using True n(3) by (simp add: keypress_handler [OF b] handler_arrow [OF k])
    have moved: "\<exists>n. 1 \<le> n \<and> n \<le> length ?items
                \<and> active ?st' = (active st + ?off * int n) mod int (length ?items)
                \<and> selectable_at ?items (active ?st')
                \<and> (\<forall>j. 1 \<le> j \<and> j < n \<longrightarrow>
                      \<not> selectable_at ?items
                          ((active st + ?off * int j) mod int (length ?items)))"
      using n(1,2,4,5) mod_index_range [OF sel]
      by (intro exI [of _ n]) (simp add: selectable_at_iff)
    show ?thesis
      by (rule exI [of _ ?st'], simp only: kp if_P [OF True] moved) simp
  qed
qed


lemma search_match_iff:
  "search_match str t item \<longleftrightarrow>
     (\<exists>c. item = Choice c \<and> isSelectable item \<and> startsWith (toLowerCase (label str c)) t)"
  by (cases item) (simp_all add: search_match_def)

lemma findIndex_selectable_at:
  assumes "0 \<le> findIndex P items" and "\<And>x. P x \<Longrightarrow> isSelectable x"
  shows "selectable_at items (findIndex P items)"
  using assms findIndex_range [of P items] findIndex_holds [of P items]
  by (simp add: selectable_at_iff)

lemma enter_effect:
  assumes b: "bounds (choices config) = Inr b" and act: "active_selectable config st"
  shows "\<exists>c. item_at (choices config) (active st) = Some (Choice c)
           \<and> isSelectable (Choice c)
           \<and> keypress str config Enter st =
               Some (Inr (st\<lparr>timers := clearTimeout (searchTimeoutRef st) (timers st),
                              status := Done,
                              emitted := emitted st @ [Some (val c)]\<rparr>))"
proof -
  from act obtain item where item: "item_at (choices config) (active st) = Some item"
    "isSelectable item"
    by (auto simp: active_selectable_def selectable_at_def split: option.splits)
  from item(2) obtain c where c: "item = Choice c" by (cases item) simp_all
  with item show ?thesis
    by (simp add: keypress_handler [OF b] handler_Enter)
qed

lemma other_effect:
  assumes b: "bounds (choices config) = Inr b"
  shows "keypress str config Other st =
     Some (Inr (st\<lparr>timers := clearTimeout (searchTimeoutRef st) (timers st)
                             @ [(next_handle st, 700)],
                    active := (if 0 \<le> findIndex (search_match str (toLowerCase (line st)))
                                        (choices config)
                               then findIndex (search_match str (toLowerCase (line st)))
                                      (choices config)
                               else active st),
                    searchTimeoutRef := Some (next_handle st),
                    next_handle := Suc (next_handle st)\<rparr>))"
  by (simp only: keypress_handler [OF b] handler_Other)

text \<open>What every key does to a state whose cursor is on a selectable item.\<close>

lemma keypress_effect:
  assumes b: "bounds (choices config) = Inr b" and act: "active_selectable config st"
  shows "\<exists>st'. keypress str config k st = Some (Inr st')
           \<and> active_selectable config st'
           \<and> firstRender st' = firstRender st
           \<and> status st' = (if k = Enter then Done else status st)
           \<and> (k \<noteq> Enter \<longrightarrow> emitted st' = emitted st)
           \<and> timers st' = clearTimeout (searchTimeoutRef st) (timers st)
                             @ (if k = Other then [(next_handle st, 700)] else [])
           \<and> searchTimeoutRef st'
               = (if k = Other then Some (next_handle st) else searchTimeoutRef st)"
proof (cases k)
  case Enter
  from enter_effect [OF b act, of str] act show ?thesis
    by (auto simp: Enter active_selectable_def)
next
  case Up
  then have "k = Up \<or> k = Down" by simp
  from arrow_moves [OF b act this, of str] act Up show ?thesis
    by (auto simp: active_selectable_def split: if_splits)
next
  case Down
  then have "k = Up \<or> k = Down" by simp
  from arrow_moves [OF b act this, of str] act Down show ?thesis
    by (auto simp: active_selectable_def split: if_splits)
next
  case (Digit d)
  with act show ?thesis
    by (simp add: keypress_handler [OF b] handler_Digit active_selectable_def)
next
  case Backspace
  with act show ?thesis
    by (simp add: keypress_handler [OF b] handler_Backspace active_selectable_def)
next
  case Other
  have "selectable_at (choices config)
          (findIndex (search_match str (toLowerCase (line st))) (choices config))"
    if "0 \<le> findIndex (search_match str (toLowerCase (line st))) (choices config)"
    using that by (rule findIndex_selectable_at) (auto simp: search_match_iff)
  with act show ?thesis
    by (simp add: Other other_effect [OF b] active_selectable_def)
qed


subsection \<open>Sessions\<close>

lemma defaultItemIndex_selectable:
  assumes "defaultItemIndex config \<noteq> - 1"
  shows "selectable_at (choices config) (defaultItemIndex config)"
proof (cases "default config")
  case None
  with assms show ?thesis by (simp add: defaultItemIndex_def)
next
  case (Some d)
  let ?P = "\<lambda>item. case item of Separator _ \<Rightarrow> False
                          | Choice c \<Rightarrow> isSelectable item \<and> val c = d"
  from assms Some findIndex_range [of ?P "choices config"]
  have "0 \<le> findIndex ?P (choices config)" by (simp add: defaultItemIndex_def)
  then have "selectable_at (choices config) (findIndex ?P (choices config))"
    by (rule findIndex_selectable_at) (auto split: Item.splits)
  with Some show ?thesis by (simp add: defaultItemIndex_def)
qed

lemma initial_state_ok:
  assumes "initial_state config = Inr st0"
  shows "\<exists>b. bounds (choices config) = Inr b
           \<and> active st0 = (if defaultItemIndex config = - 1 then first_ix b
                            else defaultItemIndex config)"
    and "session_inv config st0"
    and "status st0 = Pending \<and> firstRender st0 \<and> emitted st0 = [] \<and> timers st0 = []
           \<and> line st0 = []"
proof -
  from assms obtain b where b: "bounds (choices config) = Inr b"
    by (auto simp: initial_state_def split: sum.splits)
  with assms have st0: "st0 = \<lparr>active = (if defaultItemIndex config = - 1 then first_ix b
                          else defaultItemIndex config),
               status = Pending, firstRender = True, searchTimeoutRef = None,
               line = [], timers = [], next_handle = 0, emitted = []\<rparr>"
    by (simp add: initial_state_def)
  from b st0 show "\<exists>b. bounds (choices config) = Inr b
           \<and> active st0 = (if defaultItemIndex config = - 1 then first_ix b
                            else defaultItemIndex config)"
    by simp
  from st0 show "status st0 = Pending \<and> firstRender st0 \<and> emitted st0 = []
      \<and> timers st0 = [] \<and> line st0 = []"
    by simp
  have ex: "\<exists>x \<in> set (choices config). isSelectable x"
  proof (rule ccontr)
    assume "\<not> ?thesis"
    then have "bounds (choices config) = Inl ValidationError"
      by (intro bounds_fail) simp
    with b show False by simp
  qed
  from bounds_ok [OF ex] b have "selectable_at (choices config) (first_ix b)"
    by (auto simp: selectable_at_iff)
  with defaultItemIndex_selectable [of config] st0
  show "session_inv config st0"
    by (simp add: session_inv_def active_selectable_def timers_ok_def)
qed

lemma clearTimeout_ok: "timers_ok st \<Longrightarrow> clearTimeout (searchTimeoutRef st) (timers st) = []"
  by (auto simp: timers_ok_def clearTimeout_def split: option.splits)

lemma fire_effect:
  "timers_ok st \<Longrightarrow>
     fire h st = (if h \<in> fst ` set (timers st) then st\<lparr>timers := [], line := []\<rparr> else st)"
  by (auto simp: fire_def timers_ok_def clearLine_def split: option.splits)

lemma step_inv:
  assumes b: "bounds (choices config) = Inr b" and inv: "session_inv config st"
  shows "\<exists>st'. step str config ev st = Some (Inr st') \<and> session_inv config st'
           \<and> (status st = Done \<longrightarrow> status st' = Done)
           \<and> ((status st = Pending \<longrightarrow> emitted st = [])
                \<longrightarrow> (status st' = Pending \<longrightarrow> emitted st' = []))
           \<and> firstRender st' = (firstRender st \<and> \<not> (ev = Render
                 \<and> int (length (choices config)) \<le> pageSize_of config))"
proof (cases ev)
  case (Keypress k)
  from inv have act: "active_selectable config st" and tok: "timers_ok st"
    by (simp_all add: session_inv_def)
  from keypress_effect [OF b act, of str k] obtain st' where
    st': "keypress str config k st = Some (Inr st')" "active_selectable config st'"
      "firstRender st' = firstRender st" "status st' = (if k = Enter then Done else status st)"
      "timers st' = clearTimeout (searchTimeoutRef st) (timers st)
                             @ (if k = Other then [(next_handle st, 700)] else [])"
      "searchTimeoutRef st'
               = (if k = Other then Some (next_handle st) else searchTimeoutRef st)"
      "k \<noteq> Enter \<longrightarrow> emitted st' = emitted st"
    by blast
  from st'(5,6) have "timers_ok st'"
    by (auto simp: clearTimeout_ok [OF tok] timers_ok_def split: option.splits)
  moreover from st'(4,7) have "(status st = Pending \<longrightarrow> emitted st = [])
                \<longrightarrow> (status st' = Pending \<longrightarrow> emitted st' = [])"
    by (cases "k = Enter") simp_all
  ultimately show ?thesis using st'(1-4)
    by (simp add: Keypress step_def session_inv_def)
next
  case (Edit s)
  with inv show ?thesis
    by (auto simp: step_def session_inv_def active_selectable_def timers_ok_def
        split: option.splits)
next
  case (Timeout h)
  from inv have tok: "timers_ok st" by (simp add: session_inv_def)
  from inv show ?thesis
    by (auto simp: Timeout step_def fire_effect [OF tok] session_inv_def
        active_selectable_def timers_ok_def split: option.splits)
next
  case Render
  with inv show ?thesis
    by (auto simp: step_def helpTip_def session_inv_def active_selectable_def timers_ok_def
        split: option.splits)
qed

lemma run_inv:
  assumes b: "bounds (choices config) = Inr b" and inv: "session_inv config st"
  shows "\<exists>st'. run str config evs st = Some (Inr st') \<and> session_inv config st'
           \<and> (status st = Done \<longrightarrow> status st' = Done)
           \<and> ((status st = Pending \<longrightarrow> emitted st = [])
                \<longrightarrow> (status st' = Pending \<longrightarrow> emitted st' = []))
           \<and> firstRender st' = (firstRender st \<and> \<not> (Render \<in> set evs
                 \<and> int (length (choices config)) \<le> pageSize_of config))"
  using inv
proof (induction evs arbitrary: st)
  case Nil
  then show ?case by simp
next
  case (Cons ev evs)
  from step_inv [OF b Cons.prems, of str ev] obtain st1 where
    st1: "step str config ev st = Some (Inr st1)" "session_inv config st1"
      "status st = Done \<longrightarrow> status st1 = Done"
      "(status st = Pending \<longrightarrow> emitted st = [])
         \<longrightarrow> (status st1 = Pending \<longrightarrow> emitted st1 = [])"
      "firstRender st1 = (firstRender st \<and> \<not> (ev = Render
                 \<and> int (length (choices config)) \<le> pageSize_of config))"
    by blast
  from Cons.IH [OF st1(2)] st1 show ?case
    by auto
qed

lemma findIndex_first:
  assumes "i < length xs" "P (xs ! i)" "\<forall>j<i. \<not> P (xs ! j)"
  shows "findIndex P xs = int i"
proof -
  from assms(1,2) have le: "findIndex P xs \<le> int i" by (rule findIndex_le)
  from assms(1,2) have "\<exists>x \<in> set xs. P x" by (metis nth_mem)
  note f = findIndex_found [OF this]
  have "\<not> nat (findIndex P xs) < i"
    using assms(3) f(3) by blast
  with f(1) le show ?thesis by simp
qed

lemma findIndex_no_match: "\<forall>i<length xs. \<not> P (xs ! i) \<Longrightarrow> findIndex P xs = - 1"
  by (rule findIndex_none) (auto simp: in_set_conv_nth)

subsection \<open>Evaluating the examples\<close>

lemmas example_defs =
  choice_def disabled_choice_def config_of_def items_ABdC_def items_ABC_def state_at_def

lemma skip_ABdC:
  "skip_loop items_ABdC 1 0 = Some (Inr 2)" "skip_loop items_ABdC 1 2 = Some (Inr 0)"
  by (rule skip_fuel_loop [of "Suc (Suc 0)"], simp add: example_defs js_rem_def item_at_def)+

lemma skip_ABC:
  "skip_loop items_ABC 1 0 = Some (Inr 1)" "skip_loop items_ABC (- 1) 0 = Some (Inr 2)"
  by (rule skip_fuel_loop [of "Suc 0"], simp add: example_defs js_rem_def item_at_def)+

lemma bounds_examples:
  "bounds items_ABdC = Inr \<lparr>first_ix = 0, last_ix = 2\<rparr>"
  "bounds items_ABC = Inr \<lparr>first_ix = 0, last_ix = 2\<rparr>"
  by (simp_all add: example_defs bounds_def)


subsection \<open>Matching up to case\<close>











lemma default_pred:
  "(case item of Separator _ \<Rightarrow> False | Choice c \<Rightarrow> isSelectable item \<and> val c = d)
     = (isSelectable item \<and> value_of item = Some d)"
  by (cases item) simp_all

lemma initial_examples:
  "initial_state (config_of items_ABC None (Some ''C'')) = Inr (init_ABC 2)"
  "initial_state (config_of items_ABC None (Some ''Z'')) = Inr (init_ABC 0)"
  "initial_state (config_of items_ABC None None) = Inr (init_ABC 0)"
  "initial_state (config_of items_ABdC None (Some ''B'')) = Inr (init_ABC 0)"
  by (simp_all add: initial_state_def bounds_def defaultItemIndex_def example_defs init_ABC_def)

lemma reachable_inv:
  assumes "initial_state config = Inr st0" and "run str config evs st0 = Some (Inr st)"
  shows "\<exists>b. bounds (choices config) = Inr b" and "session_inv config st"
    and "status st = Pending \<longrightarrow> emitted st = []"
    and "firstRender st = (\<not> (Render \<in> set evs
           \<and> int (length (choices config)) \<le> pageSize_of config))"
proof -
  note ok = initial_state_ok [OF assms(1)]
  from ok(1) obtain b where b: "bounds (choices config) = Inr b" by blast
  then show "\<exists>b. bounds (choices config) = Inr b" by blast
  from run_inv [OF b ok(2), of str evs] assms(2) ok(3)
  show "session_inv config st" "status st = Pending \<longrightarrow> emitted st = []"
    "firstRender st = (\<not> (Render \<in> set evs
           \<and> int (length (choices config)) \<le> pageSize_of config))"
    by auto
qed

lemma keypress_examples:
  "keypress id (config_of items_ABC None None) Enter (init_ABC 0) = Some (Inr done_ABC)"
  "keypress id (config_of items_ABC None None) Down done_ABC
     = Some (Inr (done_ABC\<lparr>active := 1\<rparr>))"
  "keypress id (config_of items_ABC None None) Enter done_ABC
     = Some (Inr (done_ABC\<lparr>emitted := [Some ''A'', Some ''A'']\<rparr>))"
  "keypress id (config_of items_ABC None None) Down (init_ABC 0)
     = Some (Inr ((init_ABC 0)\<lparr>active := 1\<rparr>))"
  using skip_ABC(1) bounds_examples(2)
  by (simp_all add: keypress_def handler_Enter handler_arrow config_of_def loop_of_def
      init_ABC_def done_ABC_def clearTimeout_def item_at_def items_ABC_def choice_def)

lemma run_examples:
  "run id (config_of items_ABC None None) [Keypress Other] (init_ABC 0)
     = Some (Inr ((init_ABC 0)\<lparr>searchTimeoutRef := Some 0, timers := [(0, 700)],
                               next_handle := 1\<rparr>))"
  "run id (config_of items_ABC None None) [Render, Keypress Down] (init_ABC 0)
     = Some (Inr ((init_ABC 0)\<lparr>firstRender := False, active := 1\<rparr>))"
  "run id (config_of items_ABC None None) [] (init_ABC 0) = Some (Inr (init_ABC 0))"
  using skip_ABC(1) bounds_examples(2)
  by (simp_all add: step_def keypress_def handler_Other handler_arrow helpTip_def
      config_of_def loop_of_def pageSize_of_def init_ABC_def clearTimeout_def items_ABC_def
      choice_def search_match_def label_def startsWith_def toLowerCase_def)

section \<open>The claims\<close>


text \<open>
  C1. When the choice list holds at least one selectable item, \<open>bounds\<close> succeeds, so
  does the construction of the prompt, \<open>first \<le> last\<close> and both are indices of
  selectable items. When it holds none (it is empty, or every item is disabled or a
  separator), \<open>bounds\<close> and the construction fail with the \<open>ValidationError\<close>, the
  only error the construction raises.
\<close>

theorem bounds_or_validation_error:
  "(if \<exists>x \<in> set (choices config). isSelectable x
    then \<exists>b st. bounds (choices config) = Inr b \<and> initial_state config = Inr st
           \<and> first_ix b \<le> last_ix b
           \<and> selectable_at (choices config) (first_ix b)
           \<and> selectable_at (choices config) (last_ix b)
    else bounds (choices config) = Inl ValidationError
           \<and> initial_state config = Inl ValidationError)"
proof (cases "\<exists>x \<in> set (choices config). isSelectable x")
  case True
  from bounds_ok [OF True] obtain b where b: "bounds (choices config) = Inr b"
    "0 \<le> first_ix b" "first_ix b \<le> last_ix b" "last_ix b < int (length (choices config))"
    "isSelectable (choices config ! nat (first_ix b))"
    "isSelectable (choices config ! nat (last_ix b))"
    by blast
  from b(1) have "\<exists>st. initial_state config = Inr st"
    by (simp add: initial_state_def)
  with b True show ?thesis
    by (simp add: selectable_at_iff)
next
  case False
  then have "bounds (choices config) = Inl ValidationError"
    by (intro bounds_fail) simp
  with False show ?thesis
    by (simp add: initial_state_def)
qed

theorem bounds_or_validation_error_witness:
  "(\<exists>x \<in> set (choices (config_of items_ABdC None None)). isSelectable x)
   \<and> bounds items_ABdC = Inr \<lparr>first_ix = 0, last_ix = 2\<rparr>
   \<and> \<not> (\<exists>x \<in> set (choices (config_of items_none None None)). isSelectable x)
   \<and> initial_state (config_of items_none None None) = Inl ValidationError
   \<and> initial_state (config_of [] None None) = Inl ValidationError"
  using bounds_or_validation_error [of "config_of items_ABdC None None"]
    bounds_or_validation_error [of "config_of items_none None None"]
    bounds_or_validation_error [of "config_of [] None None"]
  by (simp add: example_defs items_none_def bounds_def initial_state_def)

text \<open>
  C2. When the choice list holds a selectable item, the construction succeeds with the
  cursor on a selectable choice; every key (Enter, Up, Down, a digit, backspace, a search
  key) handled in a state whose cursor is on a selectable choice returns a state whose
  cursor is on one; so the cursor is on a selectable choice after every sequence of
  events of a session.
\<close>

theorem active_stays_selectable:
  assumes "\<exists>x \<in> set (choices config). isSelectable x"
  shows "\<exists>st0. initial_state config = Inr st0 \<and> active_selectable config st0
           \<and> (\<forall>k st. active_selectable config st \<longrightarrow>
                 (\<exists>st'. keypress str config k st = Some (Inr st')
                    \<and> active_selectable config st'))
           \<and> (\<forall>evs. \<exists>st. run str config evs st0 = Some (Inr st)
                 \<and> active_selectable config st)"
proof -
  from bounds_ok [OF assms] obtain b where b: "bounds (choices config) = Inr b"
    by blast
  then obtain st0 where st0: "initial_state config = Inr st0"
    by (auto simp: initial_state_def)
  note ok = initial_state_ok [OF st0]
  have keys: "\<exists>st'. keypress str config k st = Some (Inr st') \<and> active_selectable config st'"
    if "active_selectable config st" for k st
    using keypress_effect [OF b that, of str k] by blast
  have runs: "\<exists>st. run str config evs st0 = Some (Inr st) \<and> active_selectable config st"
    for evs
    using run_inv [OF b ok(2), of str evs] by (auto simp: session_inv_def)
  from st0 ok(2) keys runs show ?thesis
    by (auto simp: session_inv_def)
qed

theorem active_stays_selectable_witness:
  "(\<exists>x \<in> set (choices (config_of items_ABdC None None)). isSelectable x)
   \<and> initial_state (config_of items_ABdC None None) = Inr (init_ABC 0)
   \<and> active_selectable (config_of items_ABdC None None) (init_ABC 0)
   \<and> (\<exists>st. run id (config_of items_ABdC None None)
               [Keypress Down, Keypress (Digit 2), Keypress Other, Keypress Up, Keypress Enter]
               (init_ABC 0) = Some (Inr st)
          \<and> active_selectable (config_of items_ABdC None None) st)"
proof -
  let ?c = "config_of items_ABdC None None"
  have ex: "\<exists>x \<in> set (choices ?c). isSelectable x"
    by (simp add: example_defs)
  have init: "initial_state ?c = Inr (init_ABC 0)"
    by (simp add: initial_state_def bounds_def defaultItemIndex_def example_defs init_ABC_def)
  from active_stays_selectable [OF ex, of id] ex init show ?thesis
    by (auto simp del: run.simps)
qed

text \<open>
  C3. On an Up or Down key with a valid cursor: when \<open>loop\<close> is set, or the key is Up and
  the cursor is not at \<open>first\<close>, or the key is Down and the cursor is not at \<open>last\<close>,
  the cursor moves by \<open>n\<close> steps of \<open>-1\<close> (Up) or \<open>+1\<close> (Down) modulo the length of
  the list, where \<open>n\<close> is the least positive number of steps that reaches a selectable
  item; otherwise the cursor stays where it is.
\<close>

theorem arrow_key_advances:
  assumes "bounds (choices config) = Inr b"
    and "active_selectable config st"
    and "k = Up \<or> k = Down"
  shows "\<exists>st'. keypress str config k st = Some (Inr st')
     \<and> (if loop_of config \<or> (k = Up \<and> active st \<noteq> first_ix b)
             \<or> (k = Down \<and> active st \<noteq> last_ix b)
         then \<exists>n. 1 \<le> n \<and> n \<le> length (choices config)
                \<and> active st' = (active st + (if k = Up then - 1 else 1) * int n)
                                  mod int (length (choices config))
                \<and> selectable_at (choices config) (active st')
                \<and> (\<forall>j. 1 \<le> j \<and> j < n \<longrightarrow>
                      \<not> selectable_at (choices config)
                          ((active st + (if k = Up then - 1 else 1) * int j)
                             mod int (length (choices config))))
         else active st' = active st)"
  using arrow_moves [OF assms, of str] by blast

theorem arrow_key_advances_witness:
  "bounds (choices (config_of items_ABC (Some False) None)) = Inr \<lparr>first_ix = 0, last_ix = 2\<rparr>
   \<and> active_selectable (config_of items_ABC (Some False) None) (state_at 0)
   \<and> (\<exists>st'. keypress id (config_of items_ABC (Some False) None) Up (state_at 0) = Some (Inr st')
         \<and> active st' = 0)
   \<and> (\<exists>st'. keypress id (config_of items_ABC (Some False) None) Down (state_at 0)
                = Some (Inr st')
         \<and> active st' = 1)
   \<and> keypress id (config_of items_ABdC None None) Down (state_at 0)
       = Some (Inr ((state_at 0)\<lparr>active := 2\<rparr>))
   \<and> keypress id (config_of items_ABdC None None) Down (state_at 2)
       = Some (Inr ((state_at 2)\<lparr>active := 0\<rparr>))"
proof -
  let ?c = "config_of items_ABC (Some False) None"
  have b: "bounds (choices ?c) = Inr \<lparr>first_ix = 0, last_ix = 2\<rparr>"
    using bounds_examples(2) by (simp add: config_of_def)
  have act: "active_selectable ?c (state_at 0)"
    by (simp add: active_selectable_def selectable_at_def item_at_def example_defs)
  have down: "keypress id ?c Down (state_at 0) = Some (Inr ((state_at 0)\<lparr>active := 1\<rparr>))"
    using skip_ABC(1)
    by (subst keypress_handler [OF b])
      (simp add: handler_arrow config_of_def loop_of_def state_at_def clearTimeout_def)
  have wrap: "keypress id (config_of items_ABdC None None) Down (state_at 0)
       = Some (Inr ((state_at 0)\<lparr>active := 2\<rparr>))"
    "keypress id (config_of items_ABdC None None) Down (state_at 2)
       = Some (Inr ((state_at 2)\<lparr>active := 0\<rparr>))"
    using skip_ABdC bounds_examples(1)
    by (simp_all add: keypress_def handler_arrow config_of_def loop_of_def state_at_def
        clearTimeout_def)
  from arrow_key_advances [OF b act, of Up id] b act down wrap show ?thesis
    by (simp add: loop_of_def config_of_def state_at_def)
qed

text \<open>
  C4, as the code has it. In a pending state of a session, Enter calls \<open>done\<close> with the
  value of the item under the cursor, which is then the only value emitted, and sets the
  status to \<open>Done\<close>, leaving the cursor where it is; the status stays \<open>Done\<close> under every
  later event. The handler does not read the status: what a key does after \<open>Done\<close> is
  what it does before.
\<close>

theorem enter_emits_once_then_done:
  assumes "initial_state config = Inr st0" and "run str config evs st0 = Some (Inr st)"
    and "status st = Pending"
  shows "\<exists>c st'. item_at (choices config) (active st) = Some (Choice c)
           \<and> keypress str config Enter st = Some (Inr st')
           \<and> emitted st' = [Some (val c)] \<and> status st' = Done \<and> active st' = active st
           \<and> (\<forall>evs'. \<exists>st''. run str config evs' st' = Some (Inr st'') \<and> status st'' = Done)"
proof -
  note r = reachable_inv [OF assms(1,2)]
  from r(1) obtain b where b: "bounds (choices config) = Inr b" by blast
  from r(2) have act: "active_selectable config st" and tok: "timers_ok st"
    by (simp_all add: session_inv_def)
  from enter_effect [OF b act, of str] obtain c where
    c: "item_at (choices config) (active st) = Some (Choice c)"
    and kp: "keypress str config Enter st =
               Some (Inr (st\<lparr>timers := clearTimeout (searchTimeoutRef st) (timers st),
                              status := Done,
                              emitted := emitted st @ [Some (val c)]\<rparr>))"
    by blast
  let ?st' = "st\<lparr>timers := clearTimeout (searchTimeoutRef st) (timers st),
                  status := Done, emitted := emitted st @ [Some (val c)]\<rparr>"
  from act tok have inv': "session_inv config ?st'"
    by (auto simp: session_inv_def active_selectable_def timers_ok_def
        clearTimeout_ok [OF tok] split: option.splits)
  have later: "\<exists>st''. run str config evs' ?st' = Some (Inr st'') \<and> status st'' = Done"
    for evs'
    using run_inv [OF b inv', of str evs'] by auto
  from r(3) assms(3) have "emitted ?st' = [Some (val c)]" by simp
  with c kp later show ?thesis
    by (intro exI [of _ c] exI [of _ ?st']) simp
qed

theorem enter_emits_once_then_done_witness:
  "initial_state (config_of items_ABC None None) = Inr (init_ABC 0)
   \<and> run id (config_of items_ABC None None) [Keypress Down] (init_ABC 0)
       = Some (Inr ((init_ABC 0)\<lparr>active := 1\<rparr>))
   \<and> status ((init_ABC 0)\<lparr>active := 1\<rparr>) = Pending
   \<and> (\<exists>st'. keypress id (config_of items_ABC None None) Enter ((init_ABC 0)\<lparr>active := 1\<rparr>)
                = Some (Inr st')
          \<and> emitted st' = [Some ''B''] \<and> status st' = Done \<and> active st' = 1)"
proof -
  let ?c = "config_of items_ABC None None"
  have r: "run id ?c [Keypress Down] (init_ABC 0) = Some (Inr ((init_ABC 0)\<lparr>active := 1\<rparr>))"
    by (simp add: step_def keypress_examples(4))
  have p: "status ((init_ABC 0)\<lparr>active := 1\<rparr>) = Pending"
    by (simp add: init_ABC_def)
  from enter_emits_once_then_done [OF initial_examples(3) r p] initial_examples(3) r p
  show ?thesis
    by (auto simp: init_ABC_def item_at_def example_defs)
qed

text \<open>
  The handler does not ignore keys after \<open>Done\<close>: with the choices \<open>[A, B, C]\<close>, once
  Enter has set the status to \<open>Done\<close>, a Down key moves the cursor from \<open>A\<close> to \<open>B\<close> and
  a second Enter calls \<open>done\<close> a second time.
\<close>

theorem keys_after_done_counterexample:
  "initial_state (config_of items_ABC None None) = Inr (init_ABC 0)
   \<and> keypress id (config_of items_ABC None None) Enter (init_ABC 0) = Some (Inr done_ABC)
   \<and> status done_ABC = Done
   \<and> keypress id (config_of items_ABC None None) Down done_ABC
       = Some (Inr (done_ABC\<lparr>active := 1\<rparr>))
   \<and> active (done_ABC\<lparr>active := 1\<rparr>) \<noteq> active done_ABC
   \<and> keypress id (config_of items_ABC None None) Enter done_ABC
       = Some (Inr (done_ABC\<lparr>emitted := [Some ''A'', Some ''A'']\<rparr>))
   \<and> emitted (done_ABC\<lparr>emitted := [Some ''A'', Some ''A'']\<rparr>) \<noteq> emitted done_ABC"
  using initial_examples(3) keypress_examples(1-3)
  by (simp add: done_ABC_def init_ABC_def)



text \<open>
  C6. On a digit key \<open>d\<close> the handler returns without an error, and the cursor is
  \<open>d - 1\<close> when that is an index of the list holding a selectable item; in every other
  case (index out of range, separator, disabled choice) the cursor is unchanged.
\<close>

theorem digit_key_jumps:
  assumes "bounds (choices config) = Inr b"
  shows "\<exists>st'. keypress str config (Digit d) st = Some (Inr st')
           \<and> active st' = (if selectable_at (choices config) (int d - 1) then int d - 1
                            else active st)"
  by (simp add: keypress_handler [OF assms] handler_Digit)

theorem digit_key_jumps_witness:
  "bounds (choices (config_of items_ABdC None None)) = Inr \<lparr>first_ix = 0, last_ix = 2\<rparr>
   \<and> (\<exists>st'. keypress id (config_of items_ABdC None None) (Digit 3) (state_at 0) = Some (Inr st')
         \<and> active st' = 2)
   \<and> (\<exists>st'. keypress id (config_of items_ABdC None None) (Digit 2) (state_at 0) = Some (Inr st')
         \<and> active st' = 0)
   \<and> (\<exists>st'. keypress id (config_of items_ABdC None None) (Digit 9) (state_at 0) = Some (Inr st')
         \<and> active st' = 0)
   \<and> (\<exists>st'. keypress id (config_of items_ABdC None None) (Digit 0) (state_at 0) = Some (Inr st')
         \<and> active st' = 0)"
proof -
  let ?c = "config_of items_ABdC None None"
  have b: "bounds (choices ?c) = Inr \<lparr>first_ix = 0, last_ix = 2\<rparr>"
    using bounds_examples(1) by (simp add: config_of_def)
  from digit_key_jumps [OF b, of id 3 "state_at 0"] digit_key_jumps [OF b, of id 2 "state_at 0"]
    digit_key_jumps [OF b, of id 9 "state_at 0"] digit_key_jumps [OF b, of id 0 "state_at 0"] b
  show ?thesis
    by (simp add: selectable_at_def item_at_def example_defs)
qed

text \<open>
  C7. The initial cursor: when the configuration has a \<open>default\<close> and some selectable
  choice has that value, the cursor is the index of the first such choice; when it has no
  \<open>default\<close>, or no selectable choice has that value, the cursor is \<open>first\<close> of the
  bounds.
\<close>

theorem initial_active_resolution:
  assumes "initial_state config = Inr st0" and "bounds (choices config) = Inr b"
  shows "(\<forall>d i. default config = Some d \<and> i < length (choices config)
             \<and> isSelectable (choices config ! i) \<and> value_of (choices config ! i) = Some d
             \<and> (\<forall>j<i. \<not> (isSelectable (choices config ! j)
                          \<and> value_of (choices config ! j) = Some d))
           \<longrightarrow> active st0 = int i)
       \<and> (default config = None
            \<or> (\<exists>d. default config = Some d
                  \<and> (\<forall>i<length (choices config).
                        \<not> (isSelectable (choices config ! i)
                           \<and> value_of (choices config ! i) = Some d)))
           \<longrightarrow> active st0 = first_ix b)"
proof -
  from initial_state_ok(1) [OF assms(1)] assms(2)
  have act: "active st0 = (if defaultItemIndex config = - 1 then first_ix b
                            else defaultItemIndex config)"
    by auto
  have dflt: "defaultItemIndex config =
      (case default config of None \<Rightarrow> - 1
       | Some d \<Rightarrow> findIndex (\<lambda>item. isSelectable item \<and> value_of item = Some d)
                     (choices config))"
    by (simp add: defaultItemIndex_def default_pred split: option.splits)
  have found: "defaultItemIndex config = int i"
    if "default config = Some d" "i < length (choices config)"
      "isSelectable (choices config ! i)" "value_of (choices config ! i) = Some d"
      "\<forall>j<i. \<not> (isSelectable (choices config ! j) \<and> value_of (choices config ! j) = Some d)"
    for d i
    using that by (simp add: dflt findIndex_first)
  have missing: "defaultItemIndex config = - 1"
    if "default config = Some d"
      "\<forall>i<length (choices config).
          \<not> (isSelectable (choices config ! i) \<and> value_of (choices config ! i) = Some d)"
    for d
    using that by (simp add: dflt findIndex_no_match)
  have absent: "defaultItemIndex config = - 1" if "default config = None"
    using that by (simp add: dflt)
  show ?thesis
  proof (intro conjI allI impI)
    fix d i
    assume "default config = Some d \<and> i < length (choices config)
             \<and> isSelectable (choices config ! i) \<and> value_of (choices config ! i) = Some d
             \<and> (\<forall>j<i. \<not> (isSelectable (choices config ! j)
                          \<and> value_of (choices config ! j) = Some d))"
    then have "defaultItemIndex config = int i" using found by blast
    with act show "active st0 = int i" by simp
  next
    assume "default config = None
            \<or> (\<exists>d. default config = Some d
                  \<and> (\<forall>i<length (choices config).
                        \<not> (isSelectable (choices config ! i)
                           \<and> value_of (choices config ! i) = Some d)))"
    then have "defaultItemIndex config = - 1" using missing absent by blast
    with act show "active st0 = first_ix b" by simp
  qed
qed

theorem initial_active_resolution_witness:
  "initial_state (config_of items_ABC None (Some ''C'')) = Inr (init_ABC 2)
   \<and> bounds (choices (config_of items_ABC None (Some ''C''))) = Inr \<lparr>first_ix = 0, last_ix = 2\<rparr>
   \<and> default (config_of items_ABC None (Some ''C'')) = Some ''C''
   \<and> isSelectable (choices (config_of items_ABC None (Some ''C'')) ! 2)
   \<and> value_of (choices (config_of items_ABC None (Some ''C'')) ! 2) = Some ''C''
   \<and> active (init_ABC 2) = 2
   \<and> initial_state (config_of items_ABdC None (Some ''B'')) = Inr (init_ABC 0)
   \<and> bounds (choices (config_of items_ABdC None (Some ''B''))) = Inr \<lparr>first_ix = 0, last_ix = 2\<rparr>
   \<and> active (init_ABC 0) = first_ix \<lparr>first_ix = 0, last_ix = 2\<rparr>"
proof -
  let ?c = "config_of items_ABC None (Some ''C'')"
  let ?d = "config_of items_ABdC None (Some ''B'')"
  have b: "bounds (choices ?c) = Inr \<lparr>first_ix = 0, last_ix = 2\<rparr>"
    using bounds_examples(2) by (simp add: config_of_def)
  have b': "bounds (choices ?d) = Inr \<lparr>first_ix = 0, last_ix = 2\<rparr>"
    using bounds_examples(1) by (simp add: config_of_def)
  have sel: "default ?c = Some ''C'' \<and> isSelectable (choices ?c ! 2)
      \<and> value_of (choices ?c ! 2) = Some ''C''"
    by (simp add: example_defs)
  from initial_active_resolution [OF initial_examples(1) b]
    initial_active_resolution [OF initial_examples(4) b']
    initial_examples(1,4) b b' sel
  show ?thesis
    by (simp add: init_ABC_def)
qed

text \<open>
  C8. In every state a session reaches, at most one timeout is pending and
  \<^verbatim>\<open>clearTimeout(searchTimeoutRef.current)\<close>, the first statement of the handler, cancels
  whatever is pending. After a key other than a search key no timeout is pending; after a
  search key exactly one is, the new one, with a delay of 700 ms, and
  \<open>searchTimeoutRef\<close> holds it. A pending timeout that fires leaves the table and clears
  the input line, and changes nothing else.
\<close>

theorem one_search_timer:
  assumes "initial_state config = Inr st0" and "run str config evs st0 = Some (Inr st)"
  shows "length (timers st) \<le> 1
     \<and> clearTimeout (searchTimeoutRef st) (timers st) = []
     \<and> (\<forall>k. \<exists>st'. keypress str config k st = Some (Inr st')
            \<and> timers st' = (if k = Other then [(next_handle st, 700)] else [])
            \<and> (k = Other \<longrightarrow> searchTimeoutRef st' = Some (next_handle st)))
     \<and> (\<forall>h. fire h st = (if h \<in> fst ` set (timers st)
                           then st\<lparr>timers := [], line := []\<rparr> else st))"
proof -
  note r = reachable_inv [OF assms]
  from r(1) obtain b where b: "bounds (choices config) = Inr b" by blast
  from r(2) have act: "active_selectable config st" and tok: "timers_ok st"
    by (simp_all add: session_inv_def)
  from tok have one: "length (timers st) \<le> 1"
    by (auto simp: timers_ok_def split: option.splits)
  have keys: "\<exists>st'. keypress str config k st = Some (Inr st')
            \<and> timers st' = (if k = Other then [(next_handle st, 700)] else [])
            \<and> (k = Other \<longrightarrow> searchTimeoutRef st' = Some (next_handle st))" for k
    using keypress_effect [OF b act, of str k] by (auto simp: clearTimeout_ok [OF tok])
  from one clearTimeout_ok [OF tok] keys fire_effect [OF tok] show ?thesis
    by blast
qed

theorem one_search_timer_witness:
  "initial_state (config_of items_ABC None None) = Inr (init_ABC 0)
   \<and> run id (config_of items_ABC None None) [Keypress Other] (init_ABC 0)
       = Some (Inr ((init_ABC 0)\<lparr>searchTimeoutRef := Some 0, timers := [(0, 700)],
                                 next_handle := 1\<rparr>))
   \<and> (\<exists>st'. keypress id (config_of items_ABC None None) Other
                ((init_ABC 0)\<lparr>searchTimeoutRef := Some 0, timers := [(0, 700)],
                              next_handle := 1\<rparr>) = Some (Inr st')
          \<and> timers st' = [(1, 700)] \<and> searchTimeoutRef st' = Some 1)
   \<and> (\<exists>st'. keypress id (config_of items_ABC None None) Backspace
                ((init_ABC 0)\<lparr>searchTimeoutRef := Some 0, timers := [(0, 700)],
                              next_handle := 1\<rparr>) = Some (Inr st')
          \<and> timers st' = [])"
proof -
  let ?st = "(init_ABC 0)\<lparr>searchTimeoutRef := Some 0, timers := [(0, 700)],
                              next_handle := 1\<rparr>"
  note t = one_search_timer [OF initial_examples(3) run_examples(1)]
  from t have "\<exists>st'. keypress id (config_of items_ABC None None) Other ?st = Some (Inr st')
            \<and> timers st' = (if Other = Other then [(next_handle ?st, 700)] else [])
            \<and> (Other = Other \<longrightarrow> searchTimeoutRef st' = Some (next_handle ?st))"
    by blast
  moreover
  from t have "\<exists>st'. keypress id (config_of items_ABC None None) Backspace ?st = Some (Inr st')
            \<and> timers st' = (if Backspace = Other then [(next_handle ?st, 700)] else [])
            \<and> (Backspace = Other \<longrightarrow> searchTimeoutRef st' = Some (next_handle ?st))"
    by blast
  ultimately show ?thesis
    using initial_examples(3) run_examples(1) by (simp add: init_ABC_def)
qed

text \<open>
  C9. In a state a session has reached, the view computes the help tip
  \<open>(Use arrow keys)\<close> exactly when it has not been rendered before and the number of
  items is at most the page size; on every later render, and whenever the list is longer
  than a page, there is no tip.
\<close>

theorem help_tip_first_render_only:
  assumes "initial_state config = Inr st0" and "run str config evs st0 = Some (Inr st)"
  shows "fst (helpTip config st) =
           (if Render \<notin> set evs \<and> int (length (choices config)) \<le> pageSize_of config
            then Some ''(Use arrow keys)'' else None)"
  using reachable_inv(4) [OF assms] by (simp add: helpTip_def)

theorem help_tip_first_render_only_witness:
  "initial_state (config_of items_ABC None None) = Inr (init_ABC 0)
   \<and> run id (config_of items_ABC None None) [] (init_ABC 0) = Some (Inr (init_ABC 0))
   \<and> fst (helpTip (config_of items_ABC None None) (init_ABC 0)) = Some ''(Use arrow keys)''
   \<and> run id (config_of items_ABC None None) [Render, Keypress Down] (init_ABC 0)
       = Some (Inr ((init_ABC 0)\<lparr>firstRender := False, active := 1\<rparr>))
   \<and> fst (helpTip (config_of items_ABC None None)
            ((init_ABC 0)\<lparr>firstRender := False, active := 1\<rparr>)) = None"
  using help_tip_first_render_only [OF initial_examples(3) run_examples(3)]
    help_tip_first_render_only [OF initial_examples(3) run_examples(2)]
    initial_examples(3) run_examples(2,3)
  by (simp add: config_of_def pageSize_of_def items_ABC_def)

text \<open>
  C10. When the item list holds a selectable item, the skip loop of the arrow keys,
  started at any index of the list in either direction, returns within as many
  iterations as the list has items, and it returns the index of a selectable item.
\<close>

theorem skip_loop_terminates:
  assumes "\<exists>x \<in> set items. isSelectable x"
    and "0 \<le> start" "start < int (length items)"
    and "offset = 1 \<or> offset = - 1"
  shows "\<exists>next. skip_fuel (length items) items offset start = Some (Inr next)
           \<and> skip_loop items offset start = Some (Inr next)
           \<and> selectable_at items next"
proof -
  from assms(3) have "0 < int (length items)" using assms(2) by linarith
  then have "0 \<le> i mod int (length items) \<and> i mod int (length items) < int (length items)"
    for i by simp
  with skip_result [OF assms(2-4) assms(1)] show ?thesis
    by (auto simp: selectable_at_iff)
qed

theorem skip_loop_terminates_witness:
  "(\<exists>x \<in> set items_ABdC. isSelectable x)
   \<and> skip_fuel (length items_ABdC) items_ABdC 1 0 = Some (Inr 2)
   \<and> skip_loop items_ABdC 1 0 = Some (Inr 2)"
  using skip_loop_terminates [of items_ABdC 0 1]
  by (simp add: example_defs numeral_3_eq_3 js_rem_def item_at_def)

end
